theory Spec2Isabelle
  imports Complex_Main "HOL-Library.Word" "HOL-Library.Multiset"
begin

section \<open>Machine types and failures\<close>

text \<open>
  The engine is instantiated at \<^verbatim>\<open>perm_t = unsigned long\<close> (64 bits, the transport type
  \<^verbatim>\<open>MPI_UNSIGNED_LONG\<close>); block sizes, counts and loop indices are \<^verbatim>\<open>unsigned int\<close>
  (32 bits); ranks and the number of processes are C \<^verbatim>\<open>int\<close>.  Words wrap around as the
  C++ unsigned types do.  Buffers are lists; an access outside a buffer, which is
  undefined behaviour in C++, is a failure value of the model.
\<close>

type_synonym u32 = "32 word"
type_synonym u64 = "64 word"

datatype failure =
    FloatToIntUndefined
  | OutOfBounds string nat nat
  | InvalidRank nat
  | NeverReturns

section \<open>Block layout (the head of \<^verbatim>\<open>permute\<close>)\<close>

text \<open>
  \<^verbatim>\<open>double j = (double)n/(double)N;\<close> followed by \<^verbatim>\<open>std::ceil(j)\<close>.  The quotient is taken
  exactly: for \<open>n < 2^53\<close> both operands are exact doubles and the correctly rounded
  quotient has the same ceiling as the exact one.
\<close>

definition ceil_quot :: "u64 \<Rightarrow> int \<Rightarrow> int" where
  "ceil_quot n N = \<lceil>real (unat n) / real_of_int N\<rceil>"

text \<open>
  \<^verbatim>\<open>unsigned int m = std::ceil(j);\<close> is undefined when the value is infinite, not a number
  or outside the range of \<^verbatim>\<open>unsigned int\<close>.  The rest follows lines 95 to 104: the product
  \<^verbatim>\<open>(rank+1)*m\<close> is computed in \<^verbatim>\<open>unsigned int\<close>, \<^verbatim>\<open>pos\<close> in \<^verbatim>\<open>perm_t\<close>, and \<^verbatim>\<open>n-pos\<close> is
  truncated to \<^verbatim>\<open>unsigned int\<close>.
\<close>

definition layout :: "u64 \<Rightarrow> int \<Rightarrow> int \<Rightarrow> failure + (u32 \<times> u64 \<times> u32)" where
  "layout n N rank =
     (if N = 0 \<or> ceil_quot n N < 0 \<or> 2 ^ 32 \<le> ceil_quot n N then Inl FloatToIntUndefined
      else
        let m = (word_of_int (ceil_quot n N) :: u32);
            pos = (word_of_int rank :: u64) * ucast m;
            cnt = m;
            cnt = (if n < ucast ((word_of_int (rank + 1) :: u32) * m)
                   then (ucast (n - pos) :: u32) else cnt);
            cnt = (if n \<le> pos then 0 else cnt)
        in Inr (m, pos, cnt))"

definition layout_m :: "u64 \<Rightarrow> int \<Rightarrow> int \<Rightarrow> u32" where
  "layout_m n N rank = (case layout n N rank of Inr (m, pos, cnt) \<Rightarrow> m | Inl e \<Rightarrow> 0)"

definition layout_pos :: "u64 \<Rightarrow> int \<Rightarrow> int \<Rightarrow> u64" where
  "layout_pos n N rank = (case layout n N rank of Inr (m, pos, cnt) \<Rightarrow> pos | Inl e \<Rightarrow> 0)"

definition layout_count :: "u64 \<Rightarrow> int \<Rightarrow> int \<Rightarrow> u32" where
  "layout_count n N rank = (case layout n N rank of Inr (m, pos, cnt) \<Rightarrow> cnt | Inl e \<Rightarrow> 0)"

section \<open>Library collaborators taken as parameters\<close>

text \<open>
  The random number generator (\<^verbatim>\<open>boost::random::mt19937\<close> with
  \<^verbatim>\<open>uniform_int_distribution<>\<close>) and \<^verbatim>\<open>std::sort\<close> are library code.  A generator is a
  state \<open>'g\<close>; drawing from the distribution over \<open>[lo, hi]\<close> returns an \<^verbatim>\<open>int\<close> and the
  next state.  Each phase default-constructs its generator: the state \<open>gen0\<close>.
  The sort receives the key read by the comparator \<^verbatim>\<open>sort_indices\<close> and the index array.
\<close>

type_synonym 'g uniform_int = "int \<Rightarrow> int \<Rightarrow> 'g \<Rightarrow> int \<times> 'g"
type_synonym std_sort = "(u32 \<Rightarrow> u32) \<Rightarrow> u32 list \<Rightarrow> u32 list"

text \<open>The contract of the distribution: every draw lies in the closed range.\<close>

definition dist_in_range :: "'g uniform_int \<Rightarrow> bool" where
  "dist_in_range draw \<longleftrightarrow> (\<forall>lo hi g. lo \<le> hi \<longrightarrow> lo \<le> fst (draw lo hi g) \<and> fst (draw lo hi g) \<le> hi)"

text \<open>
  The contract of \<^verbatim>\<open>std::sort\<close>: the result is a rearrangement of the input in
  non-descending key order; the order of equal keys is left open.
\<close>

definition sort_contract :: "std_sort \<Rightarrow> bool" where
  "sort_contract srt \<longleftrightarrow>
     (\<forall>key xs. mset (srt key xs) = mset xs \<and> sorted (map (\<lambda>i. unat (key i)) (srt key xs)))"

text \<open>Stand-ins used to run the model: a counter as generator, insertion sort.\<close>

definition counter_dist :: "nat uniform_int" where
  "counter_dist lo hi g = (lo + int g mod (hi - lo + 1), Suc g)"

definition insertion_sort :: std_sort where
  "insertion_sort key xs = sort_key (\<lambda>i. unat (key i)) xs"

section \<open>Phase 1: the local part of \<^verbatim>\<open>run_phase1\<close>\<close>

text \<open>
  Lines 167 to 171.  The four arrays are allocated with \<^verbatim>\<open>count+1\<close> elements, so an
  index is inside them when it is below \<open>unat (cnt + 1)\<close>.  The loop bound \<^verbatim>\<open>count-1\<close> is
  computed in \<^verbatim>\<open>unsigned int\<close>.
\<close>

function phase1_fill ::
  "'g uniform_int \<Rightarrow> u32 \<Rightarrow> u64 \<Rightarrow> u32 \<Rightarrow> u32 \<Rightarrow> u64 list \<times> u32 list \<times> u32 list \<times> 'g
     \<Rightarrow> failure + (u64 list \<times> u32 list \<times> u32 list \<times> 'g)" where
  "phase1_fill draw cnt pos N k (sendbuf, destprocs, indices, gen) =
     (if k \<le> cnt - 1 then
        if unat k < unat (cnt + 1) then
          phase1_fill draw cnt pos N (k + 1)
            (sendbuf[unat k := pos + ucast k],
             destprocs[unat k := word_of_int (fst (draw 0 (sint (N - 1)) gen))],
             indices[unat k := k],
             snd (draw 0 (sint (N - 1)) gen))
        else Inl (OutOfBounds ''sendbuf'' (unat k) (unat (cnt + 1)))
      else Inr (sendbuf, destprocs, indices, gen))"
  by pat_completeness auto
termination
proof (relation "measure (\<lambda>(draw, cnt, pos, N, k, bufs). unat (cnt + 1) - unat k)")
  show "wf (measure (\<lambda>(draw, cnt, pos, N, k, bufs). unat (cnt + 1) - unat (k :: u32)))"
    by simp
next
  fix draw :: "'g uniform_int" and cnt :: u32 and pos :: u64 and N k :: u32
    and sendbuf :: "u64 list" and destprocs indices :: "u32 list" and gen :: 'g
  assume "k \<le> cnt - 1" and inside: "unat k < unat (cnt + 1)"
  have "unat (cnt + 1) < 2 ^ LENGTH(32)"
    by (rule unsigned_less)
  then have "unat k + unat (1 :: u32) < 2 ^ LENGTH(32)"
    using inside by simp
  then have "unat (k + 1) = unat k + unat (1 :: u32)"
    by (simp only: unat_add_lem)
  then show "((draw, cnt, pos, N, k + 1, sendbuf[unat k := pos + ucast k],
                destprocs[unat k := word_of_int (fst (draw 0 (sint (N - 1)) gen))],
                indices[unat k := k], snd (draw 0 (sint (N - 1)) gen)),
              (draw, cnt, pos, N, k, sendbuf, destprocs, indices, gen))
             \<in> measure (\<lambda>(draw, cnt, pos, N, k, bufs). unat (cnt + 1) - unat k)"
    using inside by simp
qed

text \<open>
  Lines 213 to 219: the inner \<^verbatim>\<open>while\<close> for one destination \<open>rp\<close>.  It reads
  \<^verbatim>\<open>destprocs[indices[k]]\<close> before it tests anything else.
\<close>

function count_run ::
  "u32 list \<Rightarrow> u32 list \<Rightarrow> u32 \<Rightarrow> nat \<Rightarrow> u32 list \<Rightarrow> failure + (nat \<times> u32 list)" where
  "count_run destprocs indices rp k sendcnts =
     (if length indices \<le> k then Inl (OutOfBounds ''indices'' k (length indices))
      else if length destprocs \<le> unat (indices ! k)
        then Inl (OutOfBounds ''destprocs'' (unat (indices ! k)) (length destprocs))
      else if rp = destprocs ! unat (indices ! k) then
        if length sendcnts \<le> unat rp
          then Inl (OutOfBounds ''sendcnts'' (unat rp) (length sendcnts))
        else count_run destprocs indices rp (k + 1)
               (sendcnts[unat rp := sendcnts ! unat rp + 1])
      else Inr (k, sendcnts))"
  by pat_completeness auto
termination
  by (relation "measure (\<lambda>(destprocs, indices, rp, k, sendcnts). length indices - k)") auto

text \<open>
  The outer \<^verbatim>\<open>for (unsigned int rp=0; rp <= (N-1); ++rp)\<close>.  For \<open>N = 0\<close> the bound is
  \<open>2^32 - 1\<close> and the condition holds for every \<open>rp\<close>: the loop does not end.
\<close>

function count_sends ::
  "u32 \<Rightarrow> u32 list \<Rightarrow> u32 list \<Rightarrow> u32 \<Rightarrow> nat \<Rightarrow> u32 list \<Rightarrow> failure + (nat \<times> u32 list)" where
  "count_sends N destprocs indices rp k sendcnts =
     (if N = 0 then Inl NeverReturns
      else if rp \<le> N - 1 then
        (case count_run destprocs indices rp k sendcnts of
           Inl e \<Rightarrow> Inl e
         | Inr ks \<Rightarrow> count_sends N destprocs indices (rp + 1) (fst ks) (snd ks))
      else Inr (k, sendcnts))"
  by pat_completeness auto
termination
proof (relation "measure (\<lambda>(N, destprocs, indices, rp, k, sendcnts). unat N - unat rp)")
  show "wf (measure (\<lambda>(N :: u32, destprocs :: u32 list, indices :: u32 list, rp :: u32,
                        k :: nat, sendcnts :: u32 list). unat N - unat rp))"
    by simp
next
  fix N rp :: u32 and destprocs indices sendcnts :: "u32 list" and k :: nat
    and ks :: "nat \<times> u32 list"
  assume N: "N \<noteq> 0" and le: "rp \<le> N - 1"
  have "unat (N - 1) = unat N - 1" using N by (rule unat_minus_one)
  moreover have "0 < unat N" using N by (simp add: unat_gt_0)
  moreover have "unat rp \<le> unat (N - 1)" using le by (simp only: word_le_nat_alt)
  ultimately have below: "unat rp < unat N" by linarith
  have "unat N < 2 ^ LENGTH(32)" by (rule unsigned_less)
  then have "unat rp + unat (1 :: u32) < 2 ^ LENGTH(32)" using below by simp
  then have "unat (rp + 1) = unat rp + unat (1 :: u32)" by (simp only: unat_add_lem)
  then show "((N, destprocs, indices, rp + 1, fst ks, snd ks),
              (N, destprocs, indices, rp, k, sendcnts))
             \<in> measure (\<lambda>(N, destprocs, indices, rp, k, sendcnts). unat N - unat rp)"
    using below by simp
qed

text \<open>Lines 236 to 241, and the same loop over \<^verbatim>\<open>recvcnts\<close> at lines 272 to 276.\<close>

definition displs :: "u32 \<Rightarrow> u32 list \<Rightarrow> u32 list" where
  "displs N cnts =
     foldl (\<lambda>d hp. d[hp := d ! (hp - 1) + cnts ! (hp - 1)]) (replicate (unat N) 0) [1..<unat N]"

record packed =
  sortedsendbuf :: "u64 list"
  sendcnts :: "u32 list"
  sdispls :: "u32 list"

text \<open>
  Lines 158 to 241 of \<^verbatim>\<open>run_phase1\<close>, everything before the first collective.  Freshly
  allocated arrays are modelled as zero-filled.  The comparator of the sort takes its
  arguments as \<^verbatim>\<open>int\<close>, so every index it may be handed has to be a non-negative
  \<^verbatim>\<open>int\<close> inside \<^verbatim>\<open>destprocs\<close>.
\<close>

definition phase1_local ::
  "'g uniform_int \<Rightarrow> std_sort \<Rightarrow> 'g \<Rightarrow> u32 \<Rightarrow> u64 \<Rightarrow> u32 \<Rightarrow> failure + packed" where
  "phase1_local draw srt gen0 cnt pos N =
     (let alloc = unat (cnt + 1) in
      case phase1_fill draw cnt pos N 0
             (replicate alloc 0, replicate alloc 0, replicate alloc 0, gen0) of
        Inl e \<Rightarrow> Inl e
      | Inr (sendbuf, destprocs, indices, gen) \<Rightarrow>
          if alloc \<le> unat cnt then Inl (OutOfBounds ''sendbuf'' (unat cnt) alloc)
          else
            let sendbuf = sendbuf[unat cnt := 0];
                destprocs = destprocs[unat cnt := N];
                indices = indices[unat cnt := cnt]
            in
              if \<not> list_all (\<lambda>i. 0 \<le> sint i \<and> nat (sint i) < alloc) indices
                then Inl (OutOfBounds ''destprocs'' alloc alloc)
              else
                let indices = srt (\<lambda>i. destprocs ! nat (sint i)) indices in
                  if \<not> (length indices = alloc \<and> list_all (\<lambda>i. unat i < alloc) indices)
                    then Inl (OutOfBounds ''sendbuf'' alloc alloc)
                  else
                    (case count_sends N destprocs indices 0 0 (replicate (unat N) 0) of
                       Inl e \<Rightarrow> Inl e
                     | Inr (k, cnts) \<Rightarrow>
                         Inr \<lparr>sortedsendbuf = map (\<lambda>i. sendbuf ! unat i) indices,
                              sendcnts = cnts,
                              sdispls = displs N cnts\<rparr>))"

section \<open>Phase 2: \<^verbatim>\<open>run_phase2\<close>\<close>

text \<open>
  Lines 332 to 334.  The temporary is declared \<^verbatim>\<open>int t\<close>: the element is cut to 32 bits
  and, when stored back into the \<^verbatim>\<open>perm_t\<close> buffer, sign-extended.
\<close>

definition swap_via_int :: "u64 list \<Rightarrow> nat \<Rightarrow> nat \<Rightarrow> u64 list" where
  "swap_via_int temp k l =
     (let t = (ucast (temp ! k) :: 32 word);
          temp = temp[k := temp ! l]
      in temp[l := scast t])"

function shuffle_loop :: "'g uniform_int \<Rightarrow> int \<Rightarrow> u64 list \<Rightarrow> 'g \<Rightarrow> failure + u64 list" where
  "shuffle_loop draw k temp gen =
     (if 1 \<le> k then
        if length temp \<le> nat k then Inl (OutOfBounds ''temp'' (nat k) (length temp))
        else if fst (draw 0 k gen) < 0 \<or> length temp \<le> nat (fst (draw 0 k gen))
          then Inl (OutOfBounds ''temp'' (nat (fst (draw 0 k gen))) (length temp))
        else shuffle_loop draw (k - 1)
               (swap_via_int temp (nat k) (nat (fst (draw 0 k gen))))
               (snd (draw 0 k gen))
      else Inr temp)"
  by pat_completeness auto
termination
  by (relation "measure (\<lambda>(draw, k, temp, gen). nat k)") auto

text \<open>\<^verbatim>\<open>int k=(total-1)\<close> converts an \<^verbatim>\<open>unsigned int\<close> to \<^verbatim>\<open>int\<close>.\<close>

definition run_phase2 :: "'g uniform_int \<Rightarrow> 'g \<Rightarrow> u64 list \<Rightarrow> u32 \<Rightarrow> failure + u64 list" where
  "run_phase2 draw gen0 temp tot =
     (if 1 < tot then shuffle_loop draw (sint (tot - 1)) temp gen0 else Inr temp)"

section \<open>Phase 3: the base position\<close>

text \<open>
  \<^verbatim>\<open>MPI_Scan\<close> with \<^verbatim>\<open>MPI_SUM\<close> is the transport's inclusive prefix scan (rank \<open>r\<close> receives
  the sum of the contributions of ranks \<open>0 \<dots> r\<close>), computed in \<^verbatim>\<open>unsigned long\<close>.
\<close>

definition mpi_scan_sum :: "u64 list \<Rightarrow> nat \<Rightarrow> u64" where
  "mpi_scan_sum contrib r = sum_list (take (Suc r) contrib)"

text \<open>Lines 362 to 373 on rank \<open>r\<close>, where \<open>szs\<close> lists the \<^verbatim>\<open>sz\<close> of every rank.\<close>

definition phase3_first :: "u32 list \<Rightarrow> nat \<Rightarrow> u64" where
  "phase3_first szs r =
     (let size = (ucast (szs ! r) :: u64);
          first = mpi_scan_sum (map ucast szs) r
      in first - size)"

section \<open>Properties of the block layout\<close>

text \<open>
  The shuffle as the specification words it (section 4.4): for \<open>k = total - 1\<close> down to \<open>1\<close>,
  draw \<open>l = uniform_int(0, k)\<close> and swap positions \<open>k\<close> and \<open>l\<close>; a buffer of at most one
  element is left unchanged.  This definition follows the specification, not the source.
\<close>

fun fisher_yates_from :: "'g uniform_int \<Rightarrow> nat \<Rightarrow> 'a list \<Rightarrow> 'g \<Rightarrow> 'a list" where
  "fisher_yates_from draw 0 buf gen = buf"
| "fisher_yates_from draw (Suc k) buf gen =
     fisher_yates_from draw k
       (buf[Suc k := buf ! nat (fst (draw 0 (int (Suc k)) gen)),
            nat (fst (draw 0 (int (Suc k)) gen)) := buf ! Suc k])
       (snd (draw 0 (int (Suc k)) gen))"

definition fisher_yates :: "'g uniform_int \<Rightarrow> 'g \<Rightarrow> 'a list \<Rightarrow> 'a list" where
  "fisher_yates draw gen0 buf = fisher_yates_from draw (length buf - 1) buf gen0"

section \<open>The collectives of Phase 1\<close>

text \<open>
  The transport is taken as reliable (spec, section 4.5): every MPI call returns success and
  the \<^verbatim>\<open>error\<close> branches after the calls are not taken.  The lists below are indexed by
  rank.  \<^verbatim>\<open>MPI_Alltoall\<close> with one element per destination: rank \<open>r\<close> receives in slot
  \<open>s\<close> what rank \<open>s\<close> holds in slot \<open>r\<close>.
\<close>

definition mpi_alltoall :: "u32 list list \<Rightarrow> nat \<Rightarrow> u32 list" where
  "mpi_alltoall sends r = map (\<lambda>s. sends ! s ! r) [0..<length sends]"

text \<open>Lines 290 to 292: \<^verbatim>\<open>total += recvcnts[rp]\<close>, starting from the caller's \<^verbatim>\<open>sz = 0\<close>.\<close>

definition recv_total :: "u32 list \<Rightarrow> u32" where
  "recv_total recvcnts = foldl (\<lambda>t c. t + c) 0 recvcnts"

text \<open>
  \<^verbatim>\<open>MPI_Alltoallv\<close> on rank \<open>r\<close>: from every rank \<open>s\<close> the \<open>sendcnts s ! r\<close> elements that start at
  \<open>sdispls s ! r\<close> of its send buffer arrive at \<open>rdispls ! s\<close> of the receive buffer.  A
  region outside either buffer is a failure.
\<close>

definition write_at :: "'a list \<Rightarrow> nat \<Rightarrow> 'a list \<Rightarrow> 'a list" where
  "write_at buf i xs = take i buf @ xs @ drop (i + length xs) buf"

definition alltoallv_from ::
  "packed list \<Rightarrow> nat \<Rightarrow> u32 list \<Rightarrow> u32 list \<Rightarrow> nat \<Rightarrow> failure + u64 list \<Rightarrow> failure + u64 list" where
  "alltoallv_from packs r recvcnts rdispls s acc =
     (case acc of
        Inl e \<Rightarrow> Inl e
      | Inr temp \<Rightarrow>
          let src = sortedsendbuf (packs ! s);
              off = unat (sdispls (packs ! s) ! r);
              len = unat (sendcnts (packs ! s) ! r);
              dst = unat (rdispls ! s)
          in if length src < off + len then Inl (OutOfBounds ''sortedsendbuf'' (off + len) (length src))
             else if length temp < dst + len then Inl (OutOfBounds ''temp'' (dst + len) (length temp))
             else Inr (write_at temp dst (take len (drop off src))))"

definition mpi_alltoallv :: "packed list \<Rightarrow> nat \<Rightarrow> u32 list \<Rightarrow> u32 list \<Rightarrow> u32 \<Rightarrow> failure + u64 list" where
  "mpi_alltoallv packs r recvcnts rdispls tot =
     foldl (\<lambda>acc s. alltoallv_from packs r recvcnts rdispls s acc)
       (Inr (replicate (unat tot) 0)) [0..<length packs]"

section \<open>Phase 3: \<^verbatim>\<open>run_phase3\<close>\<close>

text \<open>
  A slice sent to another rank: the \<^verbatim>\<open>HEADER\<close> pair \<^verbatim>\<open>(firstp, countp)\<close> and the \<^verbatim>\<open>PAYLOAD\<close>.
  Both \<^verbatim>\<open>MPI_Isend\<close> calls are taken to capture their buffers when they are issued.
\<close>

record message =
  source :: nat
  target :: nat
  hdr_first :: u64
  hdr_count :: u64
  payload :: "u64 list"

record sender =
  perm :: "u64 list"
  remains :: u32
  sent :: "message list"

text \<open>Lines 395 to 399.  \<^verbatim>\<open>(rp+1)*m - 1\<close> is computed in \<^verbatim>\<open>unsigned int\<close>.\<close>

definition slice_last :: "u32 \<Rightarrow> u64 \<Rightarrow> u32 \<Rightarrow> u64" where
  "slice_last m lastg rp =
     (let lastp = (ucast ((rp + 1) * m - 1) :: u64) in if lastg < lastp then lastg else lastp)"

definition slice_count :: "u64 \<Rightarrow> u64 \<Rightarrow> u32" where
  "slice_count firstp lastp = ucast (lastp - firstp + 1)"

text \<open>
  Lines 401 to 403: \<^verbatim>\<open>for (unsigned int k=firstp; k<=lastp; ++k) perm[k-pos]=temp[k-first]\<close>.
  When \<open>k\<close> reaches \<open>2^32 - 1\<close> inside the loop it wraps to \<open>0\<close> and the condition holds
  for every \<open>k\<close>: the loop does not end.
\<close>

function copy_local :: "u64 list \<Rightarrow> u64 \<Rightarrow> u64 \<Rightarrow> u64 \<Rightarrow> u32 \<Rightarrow> u64 list \<Rightarrow> failure + u64 list" where
  "copy_local temp first pos lastp k p =
     (if ucast k \<le> lastp then
        if length temp \<le> unat (ucast k - first)
          then Inl (OutOfBounds ''temp'' (unat (ucast k - first)) (length temp))
        else if length p \<le> unat (ucast k - pos)
          then Inl (OutOfBounds ''perm'' (unat (ucast k - pos)) (length p))
        else if k + 1 = 0 then Inl NeverReturns
        else copy_local temp first pos lastp (k + 1)
               (p[unat (ucast k - pos) := temp ! unat (ucast k - first)])
      else Inr p)"
  by pat_completeness auto
termination
proof (relation "measure (\<lambda>(temp, first, pos, lastp, k, p). 2 ^ 32 - unat k)")
  show "wf (measure (\<lambda>(temp :: u64 list, first :: u64, pos :: u64, lastp :: u64, k :: u32,
                        p :: u64 list). 2 ^ 32 - unat k))"
    by simp
next
  fix temp p :: "u64 list" and first pos lastp :: u64 and k :: u32
  assume "k + 1 \<noteq> 0"
  then have "unat (k + 1) = Suc (unat k)" using unatSuc [of k] by (simp add: add.commute)
  moreover have "unat (k + 1) < 2 ^ LENGTH(32)" by (rule unsigned_less)
  ultimately show "((temp, first, pos, lastp, k + 1,
                     p[unat (ucast k - pos) := temp ! unat (ucast k - first)]),
                    (temp, first, pos, lastp, k, p))
                   \<in> measure (\<lambda>(temp, first, pos, lastp, k, p). 2 ^ 32 - unat k)"
    by simp
qed

text \<open>
  One pass of the \<^verbatim>\<open>do\<close> body, lines 395 to 421, on rank \<open>rank\<close> of \<open>nprocs\<close>.  A send to a
  rank outside the communicator is an error of the transport.
\<close>

definition send_slice ::
  "u32 \<Rightarrow> nat \<Rightarrow> u64 list \<Rightarrow> u32 \<Rightarrow> u64 \<Rightarrow> u64 \<Rightarrow> u64 \<Rightarrow> u32 \<Rightarrow> u64 \<Rightarrow> sender \<Rightarrow> failure + sender" where
  "send_slice nprocs rank temp m pos first lastg rp firstp st =
     (let lastp = slice_last m lastg rp;
          countp = slice_count firstp lastp
      in
        if int rank = sint rp then
          (case copy_local temp first pos lastp (ucast firstp) (perm st) of
             Inl e \<Rightarrow> Inl e
           | Inr p \<Rightarrow> Inr (st\<lparr>perm := p, remains := remains st - countp\<rparr>))
        else if nprocs \<le> rp then Inl (InvalidRank (unat rp))
        else if length temp < unat (firstp - first) + unat countp
          then Inl (OutOfBounds ''temp'' (unat (firstp - first) + unat countp) (length temp))
        else Inr (st\<lparr>sent := sent st @
               [\<lparr>source = rank, target = unat rp, hdr_first = firstp,
                 hdr_count = ucast countp,
                 payload = take (unat countp) (drop (unat (firstp - first)) temp)\<rparr>]\<rparr>))"

lemma send_slice_rp_bound:
  assumes "send_slice nprocs rank temp m pos first lastg rp firstp st = Inr st'"
  shows "unat (rp + 1) = Suc (unat rp)"
proof -
  have "rp + 1 \<noteq> 0"
  proof (cases "int rank = sint rp")
    case True
    then have "0 \<le> sint rp" by simp
    then have "rp \<noteq> - 1" by auto
    then show ?thesis by (simp add: add_eq_0_iff2)
  next
    case False
    then have "\<not> nprocs \<le> rp"
      using assms by (auto simp: send_slice_def Let_def split: if_splits)
    then have "rp \<noteq> - 1" by (auto simp: word_order.extremum)
    then show ?thesis by (simp add: add_eq_0_iff2)
  qed
  then show ?thesis using unatSuc [of rp] by (simp add: add.commute)
qed

text \<open>The \<^verbatim>\<open>do \<dots> while(firstp < last)\<close> loop, lines 394 to 430.\<close>

function send_loop ::
  "u32 \<Rightarrow> nat \<Rightarrow> u64 list \<Rightarrow> u32 \<Rightarrow> u64 \<Rightarrow> u64 \<Rightarrow> u64 \<Rightarrow> u32 \<Rightarrow> u64 \<Rightarrow> sender \<Rightarrow> failure + sender" where
  "send_loop nprocs rank temp m pos first lastg rp firstp st =
     (case send_slice nprocs rank temp m pos first lastg rp firstp st of
        Inl e \<Rightarrow> Inl e
      | Inr st' \<Rightarrow>
          if firstp + ucast (slice_count firstp (slice_last m lastg rp)) < lastg
          then send_loop nprocs rank temp m pos first lastg (rp + 1)
                 (firstp + ucast (slice_count firstp (slice_last m lastg rp))) st'
          else Inr st')"
  by pat_completeness auto
termination
proof (relation "measure (\<lambda>(nprocs, rank, temp, m, pos, first, lastg, rp, firstp, st). 2 ^ 32 - unat rp)")
  show "wf (measure (\<lambda>(nprocs :: u32, rank :: nat, temp :: u64 list, m :: u32, pos :: u64,
                        first :: u64, lastg :: u64, rp :: u32, firstp :: u64, st :: sender).
                      2 ^ 32 - unat rp))"
    by simp
next
  fix nprocs m rp :: u32 and rank :: nat and temp :: "u64 list"
    and pos first lastg firstp :: u64 and st st' :: sender
  assume "send_slice nprocs rank temp m pos first lastg rp firstp st = Inr st'"
  then have "unat (rp + 1) = Suc (unat rp)" by (rule send_slice_rp_bound)
  moreover have "unat (rp + 1) < 2 ^ LENGTH(32)" by (rule unsigned_less)
  ultimately show "((nprocs, rank, temp, m, pos, first, lastg, rp + 1,
                     firstp + ucast (slice_count firstp (slice_last m lastg rp)), st'),
                    (nprocs, rank, temp, m, pos, first, lastg, rp, firstp, st))
                   \<in> measure (\<lambda>(nprocs, rank, temp, m, pos, first, lastg, rp, firstp, st).
                                2 ^ 32 - unat rp)"
    by simp
qed

text \<open>
  Lines 362 to 430 on one rank; \<open>scan\<close> is what \<^verbatim>\<open>MPI_Scan\<close> returned.  The owner of the
  first position is \<^verbatim>\<open>std::floor((double)first / (double)m)\<close> converted to \<^verbatim>\<open>unsigned int\<close>,
  taken exactly; the conversion is undefined for \<open>m = 0\<close> and for a quotient outside
  \<^verbatim>\<open>unsigned int\<close>.
\<close>

definition phase3_send ::
  "u32 \<Rightarrow> nat \<Rightarrow> u64 list \<Rightarrow> u32 \<Rightarrow> u32 \<Rightarrow> u64 \<Rightarrow> u32 \<Rightarrow> u64 list \<Rightarrow> u64 \<Rightarrow> failure + sender" where
  "phase3_send nprocs rank temp sz m pos cnt p scan =
     (let size64 = (ucast sz :: u64);
          first = scan - size64;
          lastg = first + size64 - 1
      in if m = 0 \<or> 2 ^ 32 \<le> uint first div uint m then Inl FloatToIntUndefined
         else send_loop nprocs rank temp m pos first lastg
                (word_of_int (uint first div uint m)) first
                \<lparr>perm = p, remains = cnt, sent = []\<rparr>)"

text \<open>
  Lines 437 to 455.  \<open>arrivals\<close> lists the slices in the order in which the transport
  hands them to this rank and \<open>missing\<close> is the counter \<^verbatim>\<open>remains\<close>; with no slice left
  while it is positive the blocking receive never returns.  The payload is stored from \<^verbatim>\<open>&perm[firstp-pos]\<close> on.
\<close>

definition deliver :: "u64 \<Rightarrow> message \<Rightarrow> u64 list \<Rightarrow> failure + u64 list" where
  "deliver pos msg p =
     (let i = unat (hdr_first msg - pos) in
      if length p \<le> i then Inl (OutOfBounds ''perm'' i (length p))
      else if length p < i + length (payload msg)
        then Inl (OutOfBounds ''perm'' (i + length (payload msg)) (length p))
      else Inr (write_at p i (payload msg)))"

fun recv_loop :: "u64 \<Rightarrow> message list \<Rightarrow> u64 list \<Rightarrow> u32 \<Rightarrow> failure + u64 list" where
  "recv_loop pos [] p missing = (if 0 < missing then Inl NeverReturns else Inr p)"
| "recv_loop pos (msg # arrivals) p missing =
     (if 0 < missing then
        (case deliver pos msg p of
           Inl e \<Rightarrow> Inl e
         | Inr p' \<Rightarrow> recv_loop pos arrivals p' (missing - ucast (hdr_count msg)))
      else Inr p)"

section \<open>One call of \<^verbatim>\<open>permute\<close> on every rank\<close>

text \<open>
  \<^verbatim>\<open>permute\<close> is run by all \<open>N\<close> ranks of the communicator at once; \<open>N\<close> is the size the
  caller passes, as \<^verbatim>\<open>main\<close> does.  A failure on one rank keeps the collectives from
  completing, so the call as a whole fails.
\<close>

definition all_ok :: "(failure + 'a) list \<Rightarrow> failure + 'a list" where
  "all_ok rs =
     foldr (\<lambda>r acc. case r of
                       Inl e \<Rightarrow> Inl e
                     | Inr x \<Rightarrow> (case acc of Inl e \<Rightarrow> Inl e | Inr xs \<Rightarrow> Inr (x # xs)))
       rs (Inr [])"

text \<open>Lines 92 to 116 and the local part of \<^verbatim>\<open>run_phase1\<close> on rank \<open>r\<close>.\<close>

definition rank_phase1 ::
  "'g uniform_int \<Rightarrow> std_sort \<Rightarrow> 'g \<Rightarrow> u64 \<Rightarrow> int \<Rightarrow> nat \<Rightarrow> failure + packed" where
  "rank_phase1 draw srt gen0 n N r =
     (case layout n N (int r) of
        Inl e \<Rightarrow> Inl e
      | Inr (m, pos, cnt) \<Rightarrow> phase1_local draw srt gen0 cnt pos (word_of_int N))"

text \<open>Lines 254 to 305 (the two collectives) and \<^verbatim>\<open>run_phase2\<close> on rank \<open>r\<close>.\<close>

definition rank_exchange ::
  "'g uniform_int \<Rightarrow> 'g \<Rightarrow> int \<Rightarrow> packed list \<Rightarrow> nat \<Rightarrow> failure + (u64 list \<times> u32)" where
  "rank_exchange draw gen0 N packs r =
     (let recvcnts = mpi_alltoall (map sendcnts packs) r;
          rdispls = displs (word_of_int N) recvcnts;
          tot = recv_total recvcnts
      in case mpi_alltoallv packs r recvcnts rdispls tot of
           Inl e \<Rightarrow> Inl e
         | Inr temp \<Rightarrow>
             (case run_phase2 draw gen0 temp tot of
                Inl e \<Rightarrow> Inl e
              | Inr shuffled \<Rightarrow> Inr (shuffled, tot)))"

text \<open>
  Lines 119 to 126 and the sender side of \<^verbatim>\<open>run_phase3\<close> on rank \<open>r\<close>.  The caller's vector
  is empty on entry, as in \<^verbatim>\<open>main\<close>, so \<^verbatim>\<open>p_out.resize(allocsz)\<close> yields \<open>allocsz\<close> zeros.
\<close>

definition rank_send ::
  "u64 \<Rightarrow> int \<Rightarrow> (u64 list \<times> u32) list \<Rightarrow> nat \<Rightarrow> failure + sender" where
  "rank_send n N held r =
     (case layout n N (int r) of
        Inl e \<Rightarrow> Inl e
      | Inr (m, pos, cnt) \<Rightarrow>
          let allocsz = (if int r = N - 1 \<and> 0 < cnt then cnt else m);
              p_out = replicate (unat allocsz) 0;
              scan = mpi_scan_sum (map (\<lambda>h. ucast (snd h)) held) r
          in phase3_send (word_of_int N) r (fst (held ! r)) (snd (held ! r)) m pos cnt p_out scan)"

text \<open>
  The receiving side on rank \<open>r\<close>.  The slices addressed to \<open>r\<close> are listed by sender and
  send order; \<open>sched r\<close> is the order in which the transport delivers them.
\<close>

definition inbox :: "sender list \<Rightarrow> nat \<Rightarrow> message list" where
  "inbox sts r = filter (\<lambda>msg. target msg = r) (concat (map sent sts))"

definition rank_receive ::
  "(nat \<Rightarrow> message list \<Rightarrow> message list) \<Rightarrow> u64 \<Rightarrow> int \<Rightarrow> sender list \<Rightarrow> nat \<Rightarrow> failure + u64 list" where
  "rank_receive sched n N sts r =
     recv_loop (layout_pos n N (int r)) (sched r (inbox sts r))
       (perm (sts ! r)) (remains (sts ! r))"

definition permute_all ::
  "'g uniform_int \<Rightarrow> std_sort \<Rightarrow> 'g \<Rightarrow> (nat \<Rightarrow> message list \<Rightarrow> message list) \<Rightarrow> u64 \<Rightarrow> int
     \<Rightarrow> failure + u64 list list" where
  "permute_all draw srt gen0 sched n N =
     (let ranks = [0..<nat N] in
      case all_ok (map (rank_phase1 draw srt gen0 n N) ranks) of
        Inl e \<Rightarrow> Inl e
      | Inr packs \<Rightarrow>
          (case all_ok (map (rank_exchange draw gen0 N packs) ranks) of
             Inl e \<Rightarrow> Inl e
           | Inr held \<Rightarrow>
               (case all_ok (map (rank_send n N held) ranks) of
                  Inl e \<Rightarrow> Inl e
                | Inr sts \<Rightarrow> all_ok (map (rank_receive sched n N sts) ranks))))"

text \<open>The delivery order \<open>by sender\<close>, used to run the model.\<close>

definition in_sender_order :: "nat \<Rightarrow> message list \<Rightarrow> message list" where
  "in_sender_order r msgs = msgs"

lemma ceil_quot_code: "ceil_quot n N = - ((- uint n) div N)"
proof -
  have "real (unat n) = of_int (uint n)" by simp
  then show ?thesis unfolding ceil_quot_def
    by (simp only: ceiling_divide_eq_div)
qed

lemma ceil_quot_nonneg: "0 < N \<Longrightarrow> 0 \<le> ceil_quot n N"
proof -
  assume "0 < N"
  moreover have "0 \<le> real (unat n)" by (rule of_nat_0_le_iff)
  ultimately have "0 \<le> real (unat n) / real_of_int N"
    by (intro divide_nonneg_pos) (simp_all only: of_int_0_less_iff)
  then have "(0::int) \<le> \<lceil>real (unat n) / real_of_int N\<rceil>"
    by (simp add: zero_le_ceiling)
  then show ?thesis by (simp add: ceil_quot_def)
qed

lemma ceil_quot_covers: "0 < N \<Longrightarrow> uint n \<le> N * ceil_quot n N"
proof -
  assume N: "0 < N"
  have "real (unat n) / real_of_int N \<le> of_int (ceil_quot n N)"
    unfolding ceil_quot_def by (rule le_of_int_ceiling)
  then have "real (unat n) \<le> of_int (ceil_quot n N) * real_of_int N"
    using N by (simp add: pos_divide_le_eq)
  then have "real_of_int (uint n) \<le> real_of_int (N * ceil_quot n N)"
    by (simp add: mult.commute)
  then show ?thesis by (simp only: of_int_le_iff)
qed

definition block_count :: "nat \<Rightarrow> nat \<Rightarrow> nat \<Rightarrow> nat" where
  "block_count n m r = (if n \<le> r * m then 0 else if n < (r + 1) * m then n - r * m else m)"

lemma sum_block_count: "(\<Sum>r<k. block_count n m r) = min n (k * m)"
proof (induction k)
  case 0
  then show ?case by simp
next
  case (Suc k)
  then show ?case by (auto simp: block_count_def min_def)
qed

lemma uint_wi32: "0 \<le> k \<Longrightarrow> k < 2 ^ 32 \<Longrightarrow> uint (word_of_int k :: u32) = k"
  by (simp add: uint_word_of_int)

lemma uint_wi64: "0 \<le> k \<Longrightarrow> k < 2 ^ 64 \<Longrightarrow> uint (word_of_int k :: u64) = k"
  by (simp add: uint_word_of_int)

lemma ucast_nat_down: "(ucast (word_of_nat k :: u64) :: u32) = word_of_nat k"
proof -
  have "(ucast (word_of_int (int k) :: u64) :: u32) = word_of_int (int k)"
    by (rule ucast_down_wi) (simp add: is_down)
  then show ?thesis by simp
qed

lemma layout_ok:
  assumes N: "0 < N" and N31: "N < 2 ^ 31" and r0: "0 \<le> rank" and rN: "rank < N"
      and fit: "N * ceil_quot n N < 2 ^ 32"
  shows "layout n N rank =
           Inr (word_of_int (ceil_quot n N), word_of_int (rank * ceil_quot n N),
                word_of_nat (block_count (unat n) (nat (ceil_quot n N)) (nat rank)))"
proof -
  define c where "c = ceil_quot n N"
  have c0: "0 \<le> c" unfolding c_def using N by (rule ceil_quot_nonneg)
  have cle: "c \<le> N * c" using c0 N by (simp add: mult_le_cancel_right1)
  have c32: "c < 2 ^ 32" using cle fit unfolding c_def by linarith
  have rc: "rank * c \<le> N * c" "(rank + 1) * c \<le> N * c" "0 \<le> rank * c"
    using r0 rN c0 by (simp_all add: mult_right_mono)
  have um: "uint (word_of_int c :: u32) = c"
    using c0 c32 by (simp add: uint_word_of_int)
  have uc: "uint (ucast (word_of_int c :: u32) :: u64) = c"
    using um by (simp add: uint_up_ucast is_up)
  have ur: "uint (word_of_int rank :: u64) = rank"
    using r0 rN N31 by (simp add: uint_word_of_int)
  have upos: "uint ((word_of_int rank :: u64) * ucast (word_of_int c :: u32)) = rank * c"
    using rc fit uc ur unfolding c_def [symmetric]
    by (simp add: uint_word_ariths)
  have pos_eq: "(word_of_int rank :: u64) * ucast (word_of_int c :: u32) = word_of_int (rank * c)"
  proof -
    have "(word_of_int rank :: u64) * ucast (word_of_int c :: u32)
          = word_of_int (uint ((word_of_int rank :: u64) * ucast (word_of_int c :: u32)))"
      by (simp only: word_of_int_uint)
    then show ?thesis by (simp only: upos)
  qed
  have ur1: "uint ((word_of_int (rank + 1) :: u32) * word_of_int c) = (rank + 1) * c"
  proof -
    have "(word_of_int (rank + 1) :: u32) * word_of_int c = word_of_int ((rank + 1) * c)"
      by (simp only: wi_hom_mult)
    moreover have "0 \<le> (rank + 1) * c" "(rank + 1) * c < 2 ^ 32"
      using rc fit r0 c0 unfolding c_def [symmetric] by simp_all
    ultimately show ?thesis by (simp only: uint_wi32)
  qed
  have ur1c: "uint (ucast ((word_of_int (rank + 1) :: u32) * word_of_int c) :: u64) = (rank + 1) * c"
    using ur1 by (simp add: uint_up_ucast is_up)
  have lt_iff: "n < ucast ((word_of_int (rank + 1) :: u32) * word_of_int c) \<longleftrightarrow> uint n < (rank + 1) * c"
    using ur1c by (simp add: word_less_def)
  have le_iff: "n \<le> (word_of_int rank :: u64) * ucast (word_of_int c :: u32) \<longleftrightarrow> uint n \<le> rank * c"
    using upos by (simp add: word_le_def)
  have cnt1: "uint n < (rank + 1) * c \<Longrightarrow> \<not> uint n \<le> rank * c \<Longrightarrow>
     (ucast (n - word_of_int (rank * c)) :: u32) = word_of_nat (unat n - nat rank * nat c)"
  proof -
    assume a: "uint n < (rank + 1) * c" "\<not> uint n \<le> rank * c"
    have "n - word_of_int (rank * c) = (word_of_int (uint n - rank * c) :: u64)"
      by (simp add: wi_hom_sub [symmetric])
    moreover have "uint n - rank * c = int (unat n - nat rank * nat c)"
    proof -
      have e1: "int (nat rank * nat c) = rank * c" using r0 c0 by simp
      have e2: "int (unat n) = uint n" by simp
      have "int (nat rank * nat c) \<le> int (unat n)" using a(2) e1 e2 by linarith
      then have "nat rank * nat c \<le> unat n" by (simp only: of_nat_le_iff)
      then have "int (unat n - nat rank * nat c) = int (unat n) - int (nat rank * nat c)"
        by (rule of_nat_diff)
      then show ?thesis using e1 e2 by linarith
    qed
    ultimately have "n - word_of_int (rank * c) = (word_of_nat (unat n - nat rank * nat c) :: u64)"
      by simp
    then show ?thesis by (simp only: ucast_nat_down)
  qed
  have b1: "(unat n \<le> nat rank * nat c) = (uint n \<le> rank * c)"
  proof -
    have e1: "int (nat rank * nat c) = rank * c" using r0 c0 by simp
    have e2: "int (unat n) = uint n" by simp
    have "(unat n \<le> nat rank * nat c) = (int (unat n) \<le> int (nat rank * nat c))"
      by (simp only: of_nat_le_iff)
    then show ?thesis by (simp only: e1 e2)
  qed
  have b2: "(unat n < (nat rank + 1) * nat c) = (uint n < (rank + 1) * c)"
  proof -
    have e1: "int ((nat rank + 1) * nat c) = (rank + 1) * c"
      using r0 c0 by (simp add: algebra_simps)
    have e2: "int (unat n) = uint n" by simp
    have "(unat n < (nat rank + 1) * nat c) = (int (unat n) < int ((nat rank + 1) * nat c))"
      by (simp only: of_nat_less_iff)
    then show ?thesis by (simp only: e1 e2)
  qed
  have le_iff2: "n \<le> (word_of_int (rank * c) :: u64) \<longleftrightarrow> uint n \<le> rank * c"
    using le_iff by (simp only: pos_eq)
  have guard: "\<not> (N = 0 \<or> c < 0 \<or> 2 ^ 32 \<le> c)"
    using N c0 c32 by simp
  have L: "layout n N rank = Inr (word_of_int c, word_of_int (rank * c),
       (if uint n \<le> rank * c then 0
        else if uint n < (rank + 1) * c then ucast (n - word_of_int (rank * c))
        else word_of_int c))"
    unfolding layout_def Let_def c_def [symmetric]
    by (simp only: guard if_False lt_iff le_iff2 pos_eq)
  have wc: "(word_of_nat (nat c) :: u32) = word_of_int c"
    using c0 by (rule word_of_int_nat [symmetric])
  show ?thesis
  proof (cases "uint n \<le> rank * c")
    case True
    then show ?thesis
      unfolding c_def [symmetric] L block_count_def b1 b2 by simp
  next
    case outside: False
    show ?thesis
    proof (cases "uint n < (rank + 1) * c")
      case True
      then show ?thesis
        unfolding c_def [symmetric] L block_count_def b1 b2
        using outside cnt1 by simp
    next
      case False
      then show ?thesis
        unfolding c_def [symmetric] L block_count_def b1 b2
        using outside wc by simp
    qed
  qed
qed

lemma layout_projections:
  assumes "layout n N rank = Inr (m, pos, cnt)"
  shows "layout_m n N rank = m" "layout_pos n N rank = pos" "layout_count n N rank = cnt"
  using assms by (simp_all add: layout_m_def layout_pos_def layout_count_def)

lemma block_count_le: "block_count n m r \<le> m"
  by (auto simp: block_count_def)

lemma layout_rank_facts:
  assumes N: "0 < N" and N31: "N < 2 ^ 31" and r0: "0 \<le> rank" and rN: "rank < N"
      and fit: "N * ceil_quot n N < 2 ^ 32"
  shows "layout n N rank = Inr (layout_m n N rank, layout_pos n N rank, layout_count n N rank)"
    and "uint (layout_m n N rank) = ceil_quot n N"
    and "uint (layout_pos n N rank) = rank * ceil_quot n N"
    and "unat (layout_count n N rank) = block_count (unat n) (nat (ceil_quot n N)) (nat rank)"
proof -
  define c where "c = ceil_quot n N"
  note ok = layout_ok [OF N N31 r0 rN fit]
  note proj = layout_projections [OF ok]
  have c0: "0 \<le> c" unfolding c_def using N by (rule ceil_quot_nonneg)
  have cle: "c \<le> N * c" using c0 N by (simp add: mult_le_cancel_right1)
  have c32: "c < 2 ^ 32" using cle fit unfolding c_def by linarith
  have rc: "0 \<le> rank * c" "rank * c \<le> N * c"
    using r0 rN c0 by (simp_all add: mult_right_mono)
  show "layout n N rank = Inr (layout_m n N rank, layout_pos n N rank, layout_count n N rank)"
    using ok by (simp only: proj)
  show "uint (layout_m n N rank) = ceil_quot n N"
    using c0 c32 unfolding proj c_def by (rule uint_wi32)
  have "rank * c < 2 ^ 64" using rc fit unfolding c_def by simp
  then show "uint (layout_pos n N rank) = rank * ceil_quot n N"
    using rc(1) unfolding proj c_def by (simp only: uint_wi64)
  have "block_count (unat n) (nat c) (nat rank) \<le> nat c" by (rule block_count_le)
  moreover have "nat c < 2 ^ 32" using c0 c32 by (simp add: nat_less_iff)
  ultimately have "block_count (unat n) (nat c) (nat rank) < 2 ^ LENGTH(32)" by simp
  then show "unat (layout_count n N rank) = block_count (unat n) (nat (ceil_quot n N)) (nat rank)"
    unfolding proj c_def by (simp add: unat_of_nat)
qed

text \<open>
  Claim C4, as the code has it.  For \<open>1 \<le> N < 2^31\<close> processes and \<open>N \<cdot> \<lceil>n/N\<rceil> < 2^32\<close> (no
  product of the layout leaves \<^verbatim>\<open>unsigned int\<close>), on every rank \<open>0 \<le> rank < N\<close>:
  \<open>m = \<lceil>n/N\<rceil>\<close>, \<open>pos = rank \<cdot> m\<close>, and \<open>count\<close> is \<open>0\<close> when \<open>pos \<ge> n\<close>, \<open>n - pos\<close> when
  \<open>pos < n < (rank+1) \<cdot> m\<close> and \<open>m\<close> otherwise; so \<open>0 \<le> count \<le> m\<close>, and the counts of all
  ranks sum to \<open>n\<close>.
\<close>

theorem layout_blocks:
  assumes "0 < N" and "N < 2 ^ 31" and "N * ceil_quot n N < 2 ^ 32"
  shows "(\<forall>rank. 0 \<le> rank \<and> rank < N \<longrightarrow>
            layout n N rank = Inr (layout_m n N rank, layout_pos n N rank, layout_count n N rank)
          \<and> uint (layout_m n N rank) = \<lceil>real (unat n) / real_of_int N\<rceil>
          \<and> uint (layout_pos n N rank) = rank * uint (layout_m n N rank)
          \<and> unat (layout_count n N rank) =
              (if unat n \<le> unat (layout_pos n N rank) then 0
               else if unat n < unat (layout_pos n N rank) + unat (layout_m n N rank)
                 then unat n - unat (layout_pos n N rank)
               else unat (layout_m n N rank))
          \<and> unat (layout_count n N rank) \<le> unat (layout_m n N rank))
       \<and> (\<Sum>r<nat N. unat (layout_count n N (int r))) = unat n"
proof -
  define c where "c = ceil_quot n N"
  have c0: "0 \<le> c" unfolding c_def using assms(1) by (rule ceil_quot_nonneg)
  have per_rank:
    "layout n N rank = Inr (layout_m n N rank, layout_pos n N rank, layout_count n N rank)
     \<and> uint (layout_m n N rank) = \<lceil>real (unat n) / real_of_int N\<rceil>
     \<and> uint (layout_pos n N rank) = rank * uint (layout_m n N rank)
     \<and> unat (layout_count n N rank) =
         (if unat n \<le> unat (layout_pos n N rank) then 0
          else if unat n < unat (layout_pos n N rank) + unat (layout_m n N rank)
            then unat n - unat (layout_pos n N rank)
          else unat (layout_m n N rank))
     \<and> unat (layout_count n N rank) \<le> unat (layout_m n N rank)"
    if r: "0 \<le> rank" "rank < N" for rank
  proof -
    note f = layout_rank_facts [OF assms(1) assms(2) r assms(3)]
    have um: "unat (layout_m n N rank) = nat c"
      using f(2) by (simp add: c_def unat_eq_nat_uint)
    have up: "unat (layout_pos n N rank) = nat rank * nat c"
      using f(3) r(1) c0 by (simp add: c_def unat_eq_nat_uint nat_mult_distrib)
    have cnt: "unat (layout_count n N rank) = block_count (unat n) (nat c) (nat rank)"
      using f(4) by (simp only: c_def)
    have "unat (layout_count n N rank) =
         (if unat n \<le> unat (layout_pos n N rank) then 0
          else if unat n < unat (layout_pos n N rank) + unat (layout_m n N rank)
            then unat n - unat (layout_pos n N rank)
          else unat (layout_m n N rank))"
      unfolding cnt um up by (simp add: block_count_def add.commute)
    moreover have "unat (layout_count n N rank) \<le> unat (layout_m n N rank)"
      unfolding cnt um by (rule block_count_le)
    moreover have "uint (layout_m n N rank) = \<lceil>real (unat n) / real_of_int N\<rceil>"
      using f(2) by (simp only: ceil_quot_def)
    ultimately show ?thesis using f(1) f(2) f(3) by simp
  qed
  have "(\<Sum>r<nat N. unat (layout_count n N (int r))) = (\<Sum>r<nat N. block_count (unat n) (nat c) r)"
  proof (rule sum.cong)
    fix r assume "r \<in> {..<nat N}"
    then have r: "0 \<le> int r" "int r < N" by simp_all
    show "unat (layout_count n N (int r)) = block_count (unat n) (nat c) r"
      using layout_rank_facts(4) [OF assms(1) assms(2) r assms(3)] by (simp add: c_def)
  qed simp
  also have "\<dots> = min (unat n) (nat N * nat c)" by (rule sum_block_count)
  also have "\<dots> = unat n"
  proof -
    have "uint n \<le> N * c" unfolding c_def using assms(1) by (rule ceil_quot_covers)
    then have "int (unat n) \<le> int (nat N * nat c)"
      using assms(1) c0 by simp
    then have "unat n \<le> nat N * nat c" by (simp only: of_nat_le_iff)
    then show ?thesis by simp
  qed
  finally show ?thesis using per_rank by blast
qed

theorem layout_blocks_witness:
  "(0::int) < 4 \<and> (4::int) < 2 ^ 31 \<and> 4 * ceil_quot 10 4 < 2 ^ 32
   \<and> layout 10 4 3 = Inr (3, 9, 1)
   \<and> unat (layout_count 10 4 3) \<le> unat (layout_m 10 4 3)
   \<and> (\<Sum>r<nat 4. unat (layout_count 10 4 (int r))) = unat (10 :: u64)"
proof -
  have h: "(0::int) < 4" "(4::int) < 2 ^ 31" "4 * ceil_quot 10 4 < 2 ^ 32"
    by (simp_all add: ceil_quot_code)
  have v: "layout 10 4 3 = Inr (3, 9, 1)"
    by (simp add: layout_def ceil_quot_code)
  note t = layout_blocks [OF h]
  have "(0::int) \<le> 3 \<and> (3::int) < 4" by simp
  with t have "unat (layout_count 10 4 3) \<le> unat (layout_m 10 4 3)" by blast
  moreover from t have "(\<Sum>r<nat 4. unat (layout_count 10 4 (int r))) = unat (10 :: u64)"
    by (rule conjunct2)
  ultimately show ?thesis using h v by (simp only: simp_thms)
qed

text \<open>
  The block-size shape the claim derives (a rank below the last holds \<open>m\<close> or \<open>0\<close> elements)
  fails for \<open>n = 5\<close> on \<open>4\<close> processes: rank \<open>2\<close> is not the last rank and holds one element
  of a block of two.
\<close>

theorem layout_short_block_counterexample:
  "(2::int) < 4 - 1 \<and> layout 5 4 2 = Inr (2, 4, 1)
   \<and> \<not> (layout_count 5 4 2 = layout_m 5 4 2 \<or> layout_count 5 4 2 = 0)"
  by (simp add: layout_def layout_m_def layout_count_def ceil_quot_code)

section \<open>Phase 1 with an empty block\<close>

text \<open>
  Claim C3 asks that a rank with \<open>count = 0\<close> stays inside its buffers and reaches the
  collectives.  The code does not: \<^verbatim>\<open>count-1\<close> wraps to \<open>2^32 - 1\<close>, the fill loop runs on,
  and its second iteration writes index \<open>1\<close> of arrays that hold \<open>count+1 = 1\<close> element.
  This holds for every generator, sort, position and number of processes.
\<close>

theorem phase1_zero_count_out_of_bounds:
  "phase1_local draw srt gen0 0 pos N = Inl (OutOfBounds ''sendbuf'' 1 1)"
  by (simp add: phase1_local_def)

section \<open>The prefix scan of Phase 3\<close>


lemma unat_ucast_up: "unat (ucast (x :: u32) :: u64) = unat x"
proof -
  have "uint (ucast x :: u64) = uint x" by (simp add: uint_up_ucast is_up)
  then show ?thesis by (simp only: unat_eq_nat_uint)
qed

lemma unat_sum_list_ucast:
  "sum_list (map unat xs) < 2 ^ 64 \<Longrightarrow>
     unat (sum_list (map ucast (xs :: u32 list)) :: u64) = sum_list (map unat xs)"
proof (induction xs)
  case Nil
  then show ?case by simp
next
  case (Cons x xs)
  then have IH: "unat (sum_list (map ucast xs) :: u64) = sum_list (map unat xs)" by simp
  have "unat (ucast x :: u64) = unat x" by (rule unat_ucast_up)
  then have "unat (ucast x :: u64) + unat (sum_list (map ucast xs) :: u64) < 2 ^ LENGTH(64)"
    using Cons.prems IH by simp
  then have "unat ((ucast x :: u64) + sum_list (map ucast xs)) = unat (ucast x :: u64) + unat (sum_list (map ucast xs) :: u64)"
    by (simp only: unat_add_lem)
  then show ?case using IH by (simp add: unat_ucast_up)
qed

lemma sum_list_map_nth: "sum_list (map f xs) = (\<Sum>s<length xs. f (xs ! s))"
  by (simp add: sum_list_sum_nth atLeast0LessThan)

lemma phase3_first_word:
  assumes "r < length szs"
  shows "phase3_first szs r = sum_list (map ucast (take r szs))"
proof -
  have "take (Suc r) (map ucast szs :: u64 list) = map ucast (take r szs) @ [ucast (szs ! r)]"
    using assms by (simp add: take_Suc_conv_app_nth take_map)
  then show ?thesis
    by (simp add: phase3_first_def mpi_scan_sum_def)
qed

lemma sum_take_le:
  "sum_list (map f (take r xs)) \<le> (sum_list (map f xs) :: nat)"
proof -
  have "sum_list (map f xs) = sum_list (map f (take r xs)) + sum_list (map f (drop r xs))"
    by (metis append_take_drop_id map_append sum_list.append)
  then show ?thesis by simp
qed

lemma phase3_first_unat:
  assumes r: "r < length szs" and fit: "sum_list (map unat szs) < 2 ^ 64"
  shows "unat (phase3_first szs r) = (\<Sum>s<r. unat (szs ! s))"
proof -
  have "sum_list (map unat (take r szs)) < 2 ^ 64"
    using fit sum_take_le [of unat r szs] by linarith
  then have "unat (phase3_first szs r) = sum_list (map unat (take r szs))"
    using r by (simp add: phase3_first_word unat_sum_list_ucast)
  also have "\<dots> = (\<Sum>s<length (take r szs). unat (take r szs ! s))"
    by (rule sum_list_map_nth)
  also have "\<dots> = (\<Sum>s<r. unat (szs ! s))"
    using r by (simp add: min_def)
  finally show ?thesis .
qed

lemma prefix_intervals_union:
  fixes a :: "nat \<Rightarrow> nat"
  shows "(\<Union>r<P. {(\<Sum>s<r. a s) ..< (\<Sum>s<r. a s) + a r}) = {0 ..< (\<Sum>s<P. (a s :: nat))}"
proof (induction P)
  case 0
  then show ?case by simp
next
  case (Suc P)
  have "(\<Union>r<Suc P. {(\<Sum>s<r. a s) ..< (\<Sum>s<r. a s) + a r})
        = (\<Union>r<P. {(\<Sum>s<r. a s) ..< (\<Sum>s<r. a s) + a r}) \<union> {(\<Sum>s<P. a s) ..< (\<Sum>s<P. a s) + a P}"
    by (simp add: lessThan_Suc Un_commute)
  also have "\<dots> = {0 ..< (\<Sum>s<P. a s)} \<union> {(\<Sum>s<P. a s) ..< (\<Sum>s<P. a s) + a P}"
    by (simp only: Suc.IH)
  also have "\<dots> = {0 ..< (\<Sum>s<Suc P. a s)}"
    by auto
  finally show ?case .
qed

lemma prefix_sum_mono:
  fixes a :: "nat \<Rightarrow> nat"
  shows "r \<le> r' \<Longrightarrow> (\<Sum>s<r. a s) \<le> (\<Sum>s<r'. a s)"
  by (rule sum_mono2) auto

lemma prefix_intervals_disjoint:
  fixes a :: "nat \<Rightarrow> nat"
  assumes "r \<noteq> r'"
  shows "{(\<Sum>s<r. a s) ..< (\<Sum>s<r. a s) + a r} \<inter> {(\<Sum>s<r'. (a s :: nat)) ..< (\<Sum>s<r'. a s) + a r'} = {}"
proof -
  have ord: "{(\<Sum>s<i. a s) ..< (\<Sum>s<i. a s) + a i} \<inter> {(\<Sum>s<j. a s) ..< (\<Sum>s<j. a s) + a j} = {}"
    if "i < j" for i j :: nat
  proof -
    have "(\<Sum>s<Suc i. a s) \<le> (\<Sum>s<j. a s)"
      using that by (intro prefix_sum_mono) simp
    then show ?thesis by auto
  qed
  show ?thesis
  proof (cases "r < r'")
    case True
    then show ?thesis by (rule ord)
  next
    case False
    then have "r' < r" using assms by simp
    then show ?thesis using ord [of r' r] by (simp add: Int_commute)
  qed
qed

text \<open>
  Claim C5.  When the sizes of all ranks sum to \<open>n\<close>, the base position the code computes
  on rank \<open>r\<close> (inclusive scan minus the own size) is the exclusive prefix sum
  \<open>\<Sum>s<r. total s\<close>, the intervals \<open>[first r, first r + total r)\<close> of all ranks cover exactly
  the positions \<open>0 \<dots> n-1\<close>, and the intervals of two different ranks are disjoint.
\<close>

theorem phase3_first_exclusive_prefix:
  assumes "(\<Sum>s<length szs. unat (szs ! s)) = unat (n :: u64)"
  shows "(\<forall>r<length szs. unat (phase3_first szs r) = (\<Sum>s<r. unat (szs ! s)))
       \<and> (\<Union>r<length szs. {unat (phase3_first szs r) ..< unat (phase3_first szs r) + unat (szs ! r)})
            = {0 ..< unat n}
       \<and> (\<forall>r<length szs. \<forall>r'<length szs. r \<noteq> r' \<longrightarrow>
             {unat (phase3_first szs r) ..< unat (phase3_first szs r) + unat (szs ! r)}
             \<inter> {unat (phase3_first szs r') ..< unat (phase3_first szs r') + unat (szs ! r')} = {})"
proof -
  have "sum_list (map unat szs) = unat n"
    using assms by (simp only: sum_list_map_nth)
  moreover have "unat n < 2 ^ LENGTH(64)" by (rule unsigned_less)
  ultimately have fit: "sum_list (map unat szs) < 2 ^ 64" by simp
  have first: "unat (phase3_first szs r) = (\<Sum>s<r. unat (szs ! s))" if "r < length szs" for r
    using that fit by (rule phase3_first_unat)
  have "(\<Union>r<length szs. {unat (phase3_first szs r) ..< unat (phase3_first szs r) + unat (szs ! r)})
        = (\<Union>r<length szs. {(\<Sum>s<r. unat (szs ! s)) ..< (\<Sum>s<r. unat (szs ! s)) + unat (szs ! r)})"
    using first by simp
  also have "\<dots> = {0 ..< (\<Sum>s<length szs. unat (szs ! s))}"
    by (rule prefix_intervals_union)
  finally have cover: "(\<Union>r<length szs. {unat (phase3_first szs r) ..< unat (phase3_first szs r) + unat (szs ! r)})
        = {0 ..< unat n}"
    using assms by simp
  have disj: "{unat (phase3_first szs r) ..< unat (phase3_first szs r) + unat (szs ! r)}
             \<inter> {unat (phase3_first szs r') ..< unat (phase3_first szs r') + unat (szs ! r')} = {}"
    if "r < length szs" "r' < length szs" "r \<noteq> r'" for r r'
    using that first prefix_intervals_disjoint [of r r' "\<lambda>s. unat (szs ! s)"] by simp
  show ?thesis using first cover disj by blast
qed

theorem phase3_first_exclusive_prefix_witness:
  "(\<Sum>s<length [2, 0, 3 :: u32]. unat ([2, 0, 3 :: u32] ! s)) = unat (5 :: u64)
   \<and> unat (phase3_first [2, 0, 3] 2) = 2
   \<and> {unat (phase3_first [2, 0, 3] 2) ..< unat (phase3_first [2, 0, 3] 2) + unat ([2, 0, 3 :: u32] ! 2)} = {2 ..< 5}"
proof -
  have h: "(\<Sum>s<length [2, 0, 3 :: u32]. unat ([2, 0, 3 :: u32] ! s)) = unat (5 :: u64)"
    by (simp add: lessThan_nat_numeral lessThan_Suc)
  from phase3_first_exclusive_prefix [OF h]
  have "unat (phase3_first [2, 0, 3] 2) = (\<Sum>s<2. unat ([2, 0, 3 :: u32] ! s))"
    by simp
  then have "unat (phase3_first [2, 0, 3] 2) = 2"
    by (simp add: lessThan_nat_numeral lessThan_Suc)
  then show ?thesis using h by simp
qed

end
